theory Spec2Isabelle
  imports Main "HOL-Library.Word"
begin

unbundle bit_operations_syntax

section \<open>Bytes, errors and panics\<close>

text \<open>
  A Go \<open>[]byte\<close> is a list of 8-bit words. Go's \<open>int\<close> is modelled by \<open>int\<close>: every
  integer the package computes is a slice length, a block size, or a difference of the two
  that lies between them, so no 64-bit wrap-around is reachable on a slice that fits in
  memory.
\<close>

type_synonym byte = "8 word"
type_synonym bytes = "byte list"

text \<open>
  The three package-level error values of \<open>block.go\<close>, and \<open>ExternalError\<close> for any error
  value made outside the package (what a cipher constructor returns).
\<close>

datatype error =
    ErrInputNotMultipleBlocks
  | ErrInvalidIvSize
  | ErrUnPaddingOutOfRange
  | ExternalError string

text \<open>
  Run-time panics: the integer division of \<open>%\<close> by zero, \<open>bytes.Repeat\<close> with a negative
  count, and the two panics of the CBC modes of \<open>crypto/cipher\<close>.
\<close>

datatype panic =
    IntegerDivideByZero
  | NegativeRepeatCount
  | CBCIvLength
  | CBCInputNotFullBlocks

text \<open>
  Go's \<open>%\<close> truncates towards zero: the remainder has the sign of the dividend. The
  division by zero is checked by the callers, which panic there.
\<close>

definition goRem :: "int \<Rightarrow> int \<Rightarrow> int" where
  "goRem a b = sgn a * (\<bar>a\<bar> mod \<bar>b\<bar>)"

section \<open>Padding\<close>

text \<open>
  \<open>PCKSPadding\<close>: \<open>padSize := blockSize - len(origData)%blockSize\<close>, then
  \<open>bytes.Repeat([]byte{byte(padSize)}, padSize)\<close> appended to \<open>origData\<close>. The remainder
  panics for \<open>blockSize = 0\<close>; \<open>bytes.Repeat\<close> panics on a negative count; \<open>byte(padSize)\<close>
  keeps the low eight bits.
\<close>

definition PCKSPadding :: "bytes \<Rightarrow> int \<Rightarrow> panic + bytes" where
  "PCKSPadding origData blockSize =
     (if blockSize = 0 then Inl IntegerDivideByZero
      else
        let padSize = blockSize - goRem (int (length origData)) blockSize
        in if padSize < 0 then Inl NegativeRepeatCount
           else Inr (origData @ replicate (nat padSize) (word_of_int padSize :: byte)))"

text \<open>
  \<open>PCKSUnPadding\<close>: the empty slice and a last byte larger than the length are errors;
  otherwise the slice is cut at \<open>length - unPadSize\<close>.
\<close>

definition PCKSUnPadding :: "bytes \<Rightarrow> error + bytes" where
  "PCKSUnPadding origData =
     (let length = int (length origData)
      in if length = 0 then Inl ErrUnPaddingOutOfRange
         else
           let unPadSize = uint (origData ! nat (length - 1))
           in if unPadSize > length then Inl ErrUnPaddingOutOfRange
              else Inr (take (nat (length - unPadSize)) origData))"

section \<open>The cipher primitive and the chaining modes of the host library\<close>

text \<open>
  \<open>cipher.Block\<close> of Go's \<open>crypto/cipher\<close>: a block size and the two one-block transforms.
  The package takes it from the caller's \<open>newCipher\<close>, so it is a parameter of the model.
\<close>

record Block =
  BlockSize :: int
  EncryptBlock :: "bytes \<Rightarrow> bytes"
  DecryptBlock :: "bytes \<Rightarrow> bytes"

text \<open>
  \<open>cipher.BlockMode\<close>: \<open>CryptBlocks(dst, src)\<close> is only ever called with \<open>dst\<close> and \<open>src\<close>
  the same slice, so the field maps the content of the buffer to the bytes written over it
  from its start, or to a panic.
\<close>

record BlockMode =
  ModeBlockSize :: int
  CryptBlocks :: "bytes \<Rightarrow> panic + bytes"

text \<open>
  A callee gets the slice header by value: it can overwrite the elements and cannot change
  the caller's length. \<open>inPlace buf out\<close> is the buffer after \<open>out\<close> was written over it.
\<close>

definition inPlace :: "bytes \<Rightarrow> bytes \<Rightarrow> bytes" where
  "inPlace buf out = take (length buf) (out @ drop (length out) buf)"

definition xorBytes :: "bytes \<Rightarrow> bytes \<Rightarrow> bytes" where
  "xorBytes x y = map2 (XOR) x y"

text \<open>
  The CBC encrypter of \<open>crypto/cipher\<close>: each plaintext block is xor-ed with the previous
  ciphertext block (the IV for the first) and encrypted; the loop runs while \<open>len(src) > 0\<close>.
  \<open>CryptBlocks\<close> reaches the loop only with a positive block size.
\<close>

function cbcEncryptBlocks :: "Block \<Rightarrow> bytes \<Rightarrow> bytes \<Rightarrow> bytes" where
  "cbcEncryptBlocks b ivec src =
     (if src = [] \<or> BlockSize b \<le> 0 then []
      else
        let n = nat (BlockSize b);
            c = EncryptBlock b (xorBytes (take n src) ivec)
        in c @ cbcEncryptBlocks b c (drop n src))"
  by pat_completeness auto
termination
  by (relation "measure (\<lambda>(b, ivec, src). length src)") auto

text \<open>
  The CBC decrypter: each ciphertext block is decrypted and xor-ed with the previous
  ciphertext block (the IV for the first). The library walks the blocks from the last to
  the first to work in place; the bytes written are these.
\<close>

function cbcDecryptBlocks :: "Block \<Rightarrow> bytes \<Rightarrow> bytes \<Rightarrow> bytes" where
  "cbcDecryptBlocks b ivec src =
     (if src = [] \<or> BlockSize b \<le> 0 then []
      else
        let n = nat (BlockSize b);
            c = take n src
        in xorBytes (DecryptBlock b c) ivec @ cbcDecryptBlocks b c (drop n src))"
  by pat_completeness auto
termination
  by (relation "measure (\<lambda>(b, ivec, src). length src)") auto

declare cbcEncryptBlocks.simps [simp del] cbcDecryptBlocks.simps [simp del]

text \<open>
  \<open>CryptBlocks\<close> of both modes first computes \<open>len(src) % blockSize\<close> and panics with
  "input not full blocks" when it is not zero.
\<close>

definition cbcCryptBlocks ::
  "(Block \<Rightarrow> bytes \<Rightarrow> bytes \<Rightarrow> bytes) \<Rightarrow> Block \<Rightarrow> bytes \<Rightarrow> bytes \<Rightarrow> panic + bytes" where
  "cbcCryptBlocks blocks b ivec src =
     (if BlockSize b = 0 then Inl IntegerDivideByZero
      else if goRem (int (length src)) (BlockSize b) \<noteq> 0 then Inl CBCInputNotFullBlocks
      else Inr (blocks b ivec src))"

text \<open>
  \<open>cipher.NewCBCEncrypter\<close> and \<open>cipher.NewCBCDecrypter\<close> panic when the IV length is not
  the block size, and keep their own copy of the IV.
\<close>

definition NewCBCEncrypter :: "Block \<Rightarrow> bytes \<Rightarrow> panic + BlockMode" where
  "NewCBCEncrypter b ivec =
     (if int (length ivec) \<noteq> BlockSize b then Inl CBCIvLength
      else Inr \<lparr>ModeBlockSize = BlockSize b,
                CryptBlocks = cbcCryptBlocks cbcEncryptBlocks b ivec\<rparr>)"

definition NewCBCDecrypter :: "Block \<Rightarrow> bytes \<Rightarrow> panic + BlockMode" where
  "NewCBCDecrypter b ivec =
     (if int (length ivec) \<noteq> BlockSize b then Inl CBCIvLength
      else Inr \<lparr>ModeBlockSize = BlockSize b,
                CryptBlocks = cbcCryptBlocks cbcDecryptBlocks b ivec\<rparr>)"

section \<open>The wrapper\<close>

record blockBlock =
  block :: Block
  iv :: bytes
  newEncrypt :: "Block \<Rightarrow> bytes \<Rightarrow> panic + BlockMode"
  newDecrypt :: "Block \<Rightarrow> bytes \<Rightarrow> panic + BlockMode"

text \<open>An \<open>Option\<close> is a function that updates the wrapper under construction.\<close>

type_synonym Option = "blockBlock \<Rightarrow> blockBlock"


text \<open>
  \<open>NewBlockCrypt\<close>: the error of \<open>newCipher\<close> is returned as it is; then the IV length is
  compared with the block size; then the options run in order over the wrapper with the
  CBC factories.
\<close>

definition NewBlockCrypt ::
  "bytes \<Rightarrow> bytes \<Rightarrow> (bytes \<Rightarrow> error + Block) \<Rightarrow> Option list \<Rightarrow> error + blockBlock" where
  "NewBlockCrypt key ivec newCipher opts =
     (case newCipher key of
        Inl err \<Rightarrow> Inl err
      | Inr blk \<Rightarrow>
          if int (length ivec) \<noteq> BlockSize blk then Inl ErrInvalidIvSize
          else Inr (foldl (\<lambda>bb opt. opt bb)
                      \<lparr>block = blk, iv = ivec,
                       newEncrypt = NewCBCEncrypter, newDecrypt = NewCBCDecrypter\<rparr> opts))"

definition blockBlock_BlockSize :: "blockBlock \<Rightarrow> int" where
  "blockBlock_BlockSize sf = BlockSize (block sf)"

text \<open>
  What a call of \<open>Encrypt\<close> or \<open>Decrypt\<close> does besides returning: the calls it makes to the
  chaining-mode factory and to the transform, in order, with the buffer handed over.
\<close>

datatype call = NewEncryptCall | NewDecryptCall | CryptBlocksCall bytes

text \<open>A call panics, returns a non-nil error, or returns a value with a nil error.\<close>

datatype 'a outcome = Panics panic | Fails error | Returns 'a

text \<open>
  \<open>Encrypt\<close>: pad, build the encrypting mode from the stored block and IV, run it over the
  padded buffer in place, return the buffer with a nil error. The model gives the content
  of the slice returned; that \<open>append\<close> may reuse the array of \<open>plainText\<close> is left out.
\<close>

definition Encrypt :: "blockBlock \<Rightarrow> bytes \<Rightarrow> call list \<times> bytes outcome" where
  "Encrypt sf plainText =
     (case PCKSPadding plainText (BlockSize (block sf)) of
        Inl p \<Rightarrow> ([], Panics p)
      | Inr orig \<Rightarrow>
          (case newEncrypt sf (block sf) (iv sf) of
             Inl p \<Rightarrow> ([NewEncryptCall], Panics p)
           | Inr mode \<Rightarrow>
               (case CryptBlocks mode orig of
                  Inl p \<Rightarrow> ([NewEncryptCall, CryptBlocksCall orig], Panics p)
                | Inr out \<Rightarrow>
                    ([NewEncryptCall, CryptBlocksCall orig], Returns (inPlace orig out)))))"

text \<open>
  \<open>Decrypt\<close>: \<open>len(cipherText) == 0 || len(cipherText)%blockSize != 0\<close> returns the error
  before anything else runs (the remainder is evaluated only for a non-empty buffer, and
  panics for a zero block size); then the decrypting mode runs in place and the buffer is
  unpadded.
\<close>

definition Decrypt :: "blockBlock \<Rightarrow> bytes \<Rightarrow> call list \<times> bytes outcome" where
  "Decrypt sf cipherText =
     (let blockSize = BlockSize (block sf)
      in if length cipherText = 0 then ([], Fails ErrInputNotMultipleBlocks)
         else if blockSize = 0 then ([], Panics IntegerDivideByZero)
         else if goRem (int (length cipherText)) blockSize \<noteq> 0
           then ([], Fails ErrInputNotMultipleBlocks)
         else
           (case newDecrypt sf (block sf) (iv sf) of
              Inl p \<Rightarrow> ([NewDecryptCall], Panics p)
            | Inr mode \<Rightarrow>
                (case CryptBlocks mode cipherText of
                   Inl p \<Rightarrow> ([NewDecryptCall, CryptBlocksCall cipherText], Panics p)
                 | Inr out \<Rightarrow>
                     ([NewDecryptCall, CryptBlocksCall cipherText],
                      case PCKSUnPadding (inPlace cipherText out) of
                        Inl err \<Rightarrow> Fails err
                      | Inr plain \<Rightarrow> Returns plain))))"

section \<open>An example cipher\<close>

text \<open>
  A cipher small enough to compute by hand, for the concrete instances below: a block is
  encrypted by adding the first key byte to each of its bytes, and decrypted by
  subtracting it. Its constructor rejects the empty key, as \<open>aes.NewCipher\<close> rejects a key
  of the wrong size.
\<close>

definition shiftBlock :: "byte \<Rightarrow> int \<Rightarrow> Block" where
  "shiftBlock k n =
     \<lparr>BlockSize = n, EncryptBlock = map (\<lambda>x. x + k), DecryptBlock = map (\<lambda>x. x - k)\<rparr>"

definition shiftCipher :: "int \<Rightarrow> bytes \<Rightarrow> error + Block" where
  "shiftCipher n key =
     (case key of [] \<Rightarrow> Inl (ExternalError ''invalid key size'')
      | k # _ \<Rightarrow> Inr (shiftBlock k n))"

text \<open>The wrapper that \<open>NewBlockCrypt\<close> builds from key \<open>[3]\<close>, IV \<open>[1, 2]\<close> and block size 2.\<close>

definition exampleCrypt :: blockBlock where
  "exampleCrypt =
     \<lparr>block = shiftBlock 3 2, iv = [1, 2],
      newEncrypt = NewCBCEncrypter, newDecrypt = NewCBCDecrypter\<rparr>"

text \<open>
  The wrapper that \<open>NewBlockCrypt\<close> builds from key \<open>[3]\<close> and the empty IV over the same
  cipher with block size 0: the IV length equals the block size, so construction succeeds.
\<close>

definition zeroCrypt :: blockBlock where
  "zeroCrypt =
     \<lparr>block = shiftBlock 3 0, iv = [],
      newEncrypt = NewCBCEncrypter, newDecrypt = NewCBCDecrypter\<rparr>"



section \<open>Facts about the padding functions\<close>

lemma goRem_nat: "0 < b \<Longrightarrow> goRem (int n) b = int n mod b"
  by (cases "n = 0") (simp_all add: goRem_def)

lemma goRem_nat_nonneg: "0 \<le> goRem (int n) b"
proof -
  have "0 \<le> int n mod \<bar>b\<bar>" by (cases "b = 0") simp_all
  then show ?thesis by (simp add: goRem_def sgn_if)
qed

lemma padSize_range:
  assumes "1 \<le> B"
  shows "1 \<le> B - int n mod B" and "B - int n mod B \<le> B"
proof -
  have "int n mod B < B" "0 \<le> int n mod B" using assms by simp_all
  then show "1 \<le> B - int n mod B" and "B - int n mod B \<le> B" by linarith+
qed

lemma PCKSPadding_pos:
  assumes "1 \<le> B"
  shows "PCKSPadding D B =
    Inr (D @ replicate (nat (B - int (length D) mod B))
                       (word_of_int (B - int (length D) mod B)))"
  using assms padSize_range [OF assms, of "length D"]
  by (simp add: PCKSPadding_def goRem_nat Let_def)

lemma PCKSPadding_neg: "B < 0 \<Longrightarrow> PCKSPadding D B = Inl NegativeRepeatCount"
  using goRem_nat_nonneg [of "length D" B]
  by (simp add: PCKSPadding_def Let_def)

lemma PCKSPadding_zero: "PCKSPadding D 0 = Inl IntegerDivideByZero"
  by (simp add: PCKSPadding_def)

lemma PCKSPadding_length_eq:
  assumes "1 \<le> B" and "PCKSPadding D B = Inr r"
  shows "int (length r) = int (length D) + (B - int (length D) mod B)"
    and "int (length r) = (int (length D) div B + 1) * B"
proof -
  let ?L = "int (length D)"
  let ?p = "B - ?L mod B"
  have p: "1 \<le> ?p" using padSize_range(1) [OF assms(1)] .
  have r: "r = D @ replicate (nat ?p) (word_of_int ?p)"
    using assms(2) PCKSPadding_pos [OF assms(1), of D] by simp
  show len: "int (length r) = ?L + ?p" using p by (simp add: r)
  have "?L = ?L div B * B + ?L mod B" by simp
  then have "?L + ?p = (?L div B + 1) * B" by (simp add: algebra_simps)
  with len show "int (length r) = (?L div B + 1) * B" by simp
qed

lemma PCKSUnPadding_eq:
  "PCKSUnPadding data =
     (if data = [] \<or> length data < unat (last data) then Inl ErrUnPaddingOutOfRange
      else Inr (take (length data - unat (last data)) data))"
proof (cases "data = []")
  case True
  then show ?thesis by (simp add: PCKSUnPadding_def)
next
  case False
  then have idx: "data ! nat (int (length data) - 1) = last data"
    by (simp add: last_conv_nth nat_diff_distrib')
  have u: "uint (last data) = int (unat (last data))" by simp
  have gt: "(int (length data) < uint (last data)) = (length data < unat (last data))"
    using u by linarith
  have t: "nat (int (length data) - uint (last data)) = length data - unat (last data)"
    using u by linarith
  show ?thesis using False
    by (simp add: PCKSUnPadding_def Let_def idx gt t)
qed

lemma uint_byte_of_int: "uint (word_of_int k :: byte) = k mod 256"
  by (simp add: uint_word_of_int)

lemma unat_byte_of_int: "0 \<le> k \<Longrightarrow> k \<le> 255 \<Longrightarrow> unat (word_of_int k :: byte) = nat k"
  by (simp add: unat_eq_nat_uint uint_word_of_int)

lemma unpad_pad_eq:
  assumes "1 \<le> B" and "B \<le> 255" and "PCKSPadding X B = Inr r"
  shows "PCKSUnPadding r = Inr X"
proof -
  let ?p = "B - int (length X) mod B"
  let ?r = "X @ replicate (nat ?p) (word_of_int ?p :: byte)"
  have p: "1 \<le> ?p" "?p \<le> 255"
    using padSize_range [OF assms(1), of "length X"] assms(2) by simp_all
  have r: "r = ?r" using assms(3) PCKSPadding_pos [OF assms(1), of X] by simp
  have ne: "?r \<noteq> []" using p by simp
  have pos: "0 < nat ?p" using p by simp
  have l: "last ?r = word_of_int ?p" using pos by simp
  have u: "unat (last ?r) = nat ?p" using p by (simp only: l unat_byte_of_int)
  have "PCKSUnPadding ?r = Inr X"
    unfolding PCKSUnPadding_eq [of ?r] u using ne by simp
  with r show ?thesis by simp
qed

section \<open>Unpadding: the range check\<close>

text \<open>
  Claim C2. For every byte sequence \<open>data\<close> of length \<open>L\<close>, \<open>PCKSUnPadding\<close> returns
  \<open>ErrUnPaddingOutOfRange\<close> exactly when \<open>L = 0\<close> or the value of the last byte exceeds \<open>L\<close>;
  otherwise it returns the first \<open>L - padSize\<close> bytes. Only the length and the last byte
  decide the result: whatever the \<open>padSize - 1\<close> bytes before the last one hold, they are
  cut off with it and never compared with \<open>padSize\<close>.
\<close>

theorem PCKSUnPadding_range_check:
  "(PCKSUnPadding data = Inl ErrUnPaddingOutOfRange)
     = (length data = 0 \<or> length data < unat (data ! (length data - 1)))
   \<and> (\<not> (length data = 0 \<or> length data < unat (data ! (length data - 1)))
        \<longrightarrow> PCKSUnPadding data
              = Inr (take (length data - unat (data ! (length data - 1))) data))
   \<and> (\<forall>junk p. Suc (length junk) = unat p
        \<longrightarrow> PCKSUnPadding (data @ junk @ [p]) = Inr data)"
proof -
  have a: "(PCKSUnPadding data = Inl ErrUnPaddingOutOfRange)
             = (length data = 0 \<or> length data < unat (data ! (length data - 1)))
           \<and> (\<not> (length data = 0 \<or> length data < unat (data ! (length data - 1)))
                \<longrightarrow> PCKSUnPadding data
                      = Inr (take (length data - unat (data ! (length data - 1))) data))"
  proof (cases "data = []")
    case True
    then show ?thesis by (simp add: PCKSUnPadding_eq)
  next
    case False
    then have "data ! (length data - 1) = last data" by (simp add: last_conv_nth)
    then show ?thesis using False by (simp add: PCKSUnPadding_eq)
  qed
  have b: "PCKSUnPadding (data @ junk @ [p]) = Inr data"
    if "Suc (length junk) = unat p" for junk p
    using that [symmetric] by (simp add: PCKSUnPadding_eq)
  from a b show ?thesis by blast
qed

theorem PCKSUnPadding_range_check_witness:
  "PCKSUnPadding [1, 2, 3, 2] = Inr [1, 2]
   \<and> PCKSUnPadding [] \<noteq> Inr []
   \<and> PCKSUnPadding [1, 2, 3, 5] = Inl ErrUnPaddingOutOfRange
   \<and> Suc (length [9 :: byte]) = unat (2 :: byte)
   \<and> PCKSUnPadding ([7, 8] @ [9] @ [2]) = Inr [7, 8]"
proof -
  have ok: "PCKSUnPadding [1, 2, 3, 2] = Inr [1, 2]"
    using PCKSUnPadding_range_check [of "[1, 2, 3, 2]"] by simp
  have empty: "PCKSUnPadding [] \<noteq> Inr []"
    using PCKSUnPadding_range_check [of "[]"] by simp
  have large: "PCKSUnPadding [1, 2, 3, 5] = Inl ErrUnPaddingOutOfRange"
    using PCKSUnPadding_range_check [of "[1, 2, 3, 5]"] by simp
  have h: "Suc (length [9 :: byte]) = unat (2 :: byte)" by simp
  have junk: "PCKSUnPadding ([7, 8] @ [9] @ [2]) = Inr [7, 8]"
    using PCKSUnPadding_range_check [of "[7, 8]"] h by blast
  show ?thesis using ok empty large h junk by blast
qed

section \<open>Padding: length of the result\<close>

text \<open>
  Claim C3. For every byte sequence \<open>D\<close> and every block size \<open>B \<ge> 1\<close>, \<open>PCKSPadding D B\<close>
  returns one value, fixed by \<open>D\<close> and \<open>B\<close>, of length \<open>len D + (B - len D mod B)\<close>; that
  length is \<open>k * B\<close> for a positive \<open>k\<close>, and it is greater than \<open>len D\<close>.
\<close>

theorem PCKSPadding_length:
  assumes "1 \<le> B"
  shows "\<exists>r. PCKSPadding D B = Inr r
           \<and> int (length r) = int (length D) + (B - int (length D) mod B)
           \<and> int (length r) = (int (length D) div B + 1) * B
           \<and> 0 < int (length D) div B + 1
           \<and> length D < length r"
proof -
  obtain r where r: "PCKSPadding D B = Inr r"
    using PCKSPadding_pos [OF assms] by blast
  note len = PCKSPadding_length_eq [OF assms r]
  have "0 \<le> int (length D) div B" using assms by (simp add: pos_imp_zdiv_nonneg_iff)
  then have k: "0 < int (length D) div B + 1" by simp
  have "1 \<le> B - int (length D) mod B" using padSize_range(1) [OF assms] .
  with len(1) have gt: "length D < length r" by linarith
  show ?thesis using r len k gt by blast
qed

theorem PCKSPadding_length_witness:
  "(1::int) \<le> 4
   \<and> (\<exists>r. PCKSPadding [1, 2, 3, 4, 5] 4 = Inr r \<and> int (length r) = 8 \<and> 5 < length r)"
proof -
  have h: "(1::int) \<le> 4" by simp
  obtain r where r: "PCKSPadding [1, 2, 3, 4, 5] 4 = Inr r"
    and len: "int (length r)
                = int (length [1, 2, 3, 4, 5 :: byte]) + (4 - int (length [1, 2, 3, 4, 5 :: byte]) mod 4)"
    and gt: "length [1, 2, 3, 4, 5 :: byte] < length r"
    using PCKSPadding_length [OF h, of "[1, 2, 3, 4, 5]"] by blast
  from len have "int (length r) = 8" by simp
  moreover from gt have "5 < length r" by simp
  ultimately show ?thesis using h r by blast
qed

section \<open>Unpadding undoes padding\<close>

text \<open>
  Claim C4. For every \<open>X\<close> and every block size \<open>B\<close> with \<open>1 \<le> B \<le> 255\<close>,
  \<open>PCKSUnPadding\<close> applied to the result of \<open>PCKSPadding X B\<close> succeeds and returns \<open>X\<close>.
\<close>

theorem unpad_pad:
  assumes "1 \<le> B" and "B \<le> 255"
  shows "\<exists>r. PCKSPadding X B = Inr r \<and> PCKSUnPadding r = Inr X"
proof -
  obtain r where r: "PCKSPadding X B = Inr r"
    using PCKSPadding_pos [OF assms(1)] by blast
  from unpad_pad_eq [OF assms r] r show ?thesis by blast
qed

theorem unpad_pad_witness:
  "(1::int) \<le> 16 \<and> (16::int) \<le> 255
   \<and> (\<exists>r. PCKSPadding [104, 101, 108, 108, 111] 16 = Inr r
          \<and> PCKSUnPadding r = Inr [104, 101, 108, 108, 111])"
  using unpad_pad [of 16 "[104, 101, 108, 108, 111]"] by simp

section \<open>Padding an exact multiple of the block size\<close>

text \<open>
  Claim C7, as the code has it. For every block size \<open>B \<ge> 1\<close> and every \<open>data\<close> whose
  length is a multiple of \<open>B\<close> (the empty one too), \<open>PCKSPadding data B\<close> appends exactly \<open>B\<close>
  bytes, each \<open>byte(B)\<close>, whose value is \<open>B mod 256\<close>: it is \<open>B\<close> when \<open>B \<le> 255\<close>.
\<close>

theorem pad_full_block:
  assumes "1 \<le> B" and "B dvd int (length data)"
  shows "PCKSPadding data B = Inr (data @ replicate (nat B) (word_of_int B))
         \<and> uint (word_of_int B :: byte) = B mod 256
         \<and> (B \<le> 255 \<longrightarrow> uint (word_of_int B :: byte) = B)"
proof -
  have "int (length data) mod B = 0" using assms(2) by simp
  then have "PCKSPadding data B = Inr (data @ replicate (nat B) (word_of_int B))"
    using PCKSPadding_pos [OF assms(1), of data] by simp
  moreover have "B \<le> 255 \<longrightarrow> B mod 256 = B" using assms(1) by simp
  ultimately show ?thesis by (simp add: uint_byte_of_int)
qed

theorem pad_full_block_witness:
  "(1::int) \<le> 2 \<and> (2::int) dvd int (length [7, 8, 9, 10 :: byte]) \<and> (2::int) \<le> 255
   \<and> PCKSPadding [7, 8, 9, 10] 2 = Inr [7, 8, 9, 10, 2, 2]
   \<and> uint (2 :: byte) = 2"
  using pad_full_block [of 2 "[7, 8, 9, 10]"] by (simp add: numeral_2_eq_2)

text \<open>
  With block size 256 the empty input is a multiple of the block size; the 256 bytes
  appended hold \<open>byte(256) = 0\<close>, not 256.
\<close>

theorem pad_full_block_counterexample:
  "PCKSPadding [] 256 = Inr (replicate 256 0) \<and> uint (0 :: byte) \<noteq> 256"
  by (simp add: PCKSPadding_def goRem_def)

section \<open>Unpadding with a zero last byte\<close>

text \<open>
  Claim C9. For every non-empty \<open>data\<close> whose last byte is 0, \<open>PCKSUnPadding\<close> succeeds and
  returns the whole input: a zero padding length is accepted.
\<close>

theorem unpad_zero_last:
  assumes "data \<noteq> []" and "data ! (length data - 1) = 0"
  shows "PCKSUnPadding data = Inr data"
proof -
  have "last data = 0" using assms by (simp add: last_conv_nth)
  then show ?thesis using assms(1) by (simp add: PCKSUnPadding_eq)
qed

theorem unpad_zero_last_witness:
  "[5, 6, 0 :: byte] \<noteq> [] \<and> [5, 6, 0 :: byte] ! (length [5, 6, 0 :: byte] - 1) = 0
   \<and> PCKSUnPadding [5, 6, 0] = Inr [5, 6, 0]"
  using unpad_zero_last [of "[5, 6, 0]"] by simp

section \<open>Padding is defined exactly for positive block sizes\<close>

text \<open>
  Claim C10. \<open>PCKSPadding\<close> with block size 0 panics on the remainder; with a block size
  of at least 1 it never panics and returns a value; with a block size below 1 it
  returns nothing.
\<close>

theorem PCKSPadding_total_iff:
  "PCKSPadding D 0 = Inl IntegerDivideByZero
   \<and> (1 \<le> B \<longrightarrow> (\<exists>r. PCKSPadding D B = Inr r))
   \<and> (B < 1 \<longrightarrow> (\<exists>p. PCKSPadding D B = Inl p))"
proof -
  have "B < 1 \<longrightarrow> (\<exists>p. PCKSPadding D B = Inl p)"
  proof
    assume "B < 1"
    then consider "B = 0" | "B < 0" by linarith
    then show "\<exists>p. PCKSPadding D B = Inl p"
      by cases (simp_all add: PCKSPadding_zero PCKSPadding_neg)
  qed
  then show ?thesis by (simp add: PCKSPadding_zero PCKSPadding_pos)
qed

theorem PCKSPadding_total_iff_witness:
  "PCKSPadding [1, 2, 3] 0 = Inl IntegerDivideByZero
   \<and> (1::int) \<le> 8 \<and> (\<exists>r. PCKSPadding [1, 2, 3] 8 = Inr r)"
  using PCKSPadding_total_iff [of "[1, 2, 3]" 8] by simp

section \<open>Facts about the chaining modes and the wrapper\<close>

lemma goRem_eq_0_iff: "b \<noteq> 0 \<Longrightarrow> (goRem (int n) b = 0) = (b dvd int n)"
proof -
  assume b: "b \<noteq> 0"
  have "(int n mod \<bar>b\<bar> = 0) = (b dvd int n)" by (simp add: mod_eq_0_iff_dvd)
  then show ?thesis by (cases "n = 0") (simp_all add: goRem_def)
qed

lemma xorBytes_length: "length (xorBytes x y) = min (length x) (length y)"
  by (simp add: xorBytes_def)

lemma xorBytes_cancel: "length x = length y \<Longrightarrow> xorBytes (xorBytes x y) y = x"
  by (induction x y rule: list_induct2) (simp_all add: xorBytes_def xor.assoc)


lemma inPlace_same_length: "length out = length buf \<Longrightarrow> inPlace buf out = out"
  by (simp add: inPlace_def)

lemma dvd_length_ge:
  assumes "1 \<le> B" and "B dvd int (length src)" and "src \<noteq> []"
  shows "nat B \<le> length src" and "B dvd int (length (drop (nat B) src))"
proof -
  have "0 < int (length src)" using assms(3) by simp
  with assms(2) have "B \<le> int (length src)" by (rule zdvd_imp_le)
  then show le: "nat B \<le> length src" by simp
  have "int (length (drop (nat B) src)) = int (length src) - B"
    using le assms(1) by simp
  then show "B dvd int (length (drop (nat B) src))" using assms(2) by simp
qed

lemma cbcDecryptBlocks_append:
  assumes "1 \<le> BlockSize b" and "length c = nat (BlockSize b)"
  shows "cbcDecryptBlocks b ivec (c @ rest)
           = xorBytes (DecryptBlock b c) ivec @ cbcDecryptBlocks b c rest"
proof -
  have "c \<noteq> []" using assms by auto
  then show ?thesis
    using assms by (subst cbcDecryptBlocks.simps) (simp add: Let_def)
qed

text \<open>
  CBC decryption undoes CBC encryption on whole blocks, for a cipher whose one-block
  transforms keep the block length and undo each other.
\<close>

lemma cbc_roundtrip:
  "1 \<le> BlockSize b \<Longrightarrow>
   (\<forall>x. int (length x) = BlockSize b \<longrightarrow>
        length (EncryptBlock b x) = length x \<and> DecryptBlock b (EncryptBlock b x) = x) \<Longrightarrow>
   int (length ivec) = BlockSize b \<Longrightarrow> BlockSize b dvd int (length src) \<Longrightarrow>
   length (cbcEncryptBlocks b ivec src) = length src
   \<and> cbcDecryptBlocks b ivec (cbcEncryptBlocks b ivec src) = src"
proof (induction b ivec src rule: cbcEncryptBlocks.induct)
  case (1 b ivec src)
  let ?n = "nat (BlockSize b)"
  show ?case
  proof (cases "src = []")
    case True
    then show ?thesis by (simp add: cbcEncryptBlocks.simps cbcDecryptBlocks.simps)
  next
    case False
    let ?x = "xorBytes (take ?n src) ivec"
    let ?c = "EncryptBlock b ?x"
    let ?rest = "cbcEncryptBlocks b ?c (drop ?n src)"
    note B = "1.prems"(1) and ok = "1.prems"(2) and liv = "1.prems"(3)
    have le: "?n \<le> length src" and dv: "BlockSize b dvd int (length (drop ?n src))"
      using dvd_length_ge [OF B "1.prems"(4) False] by blast+
    have lenx: "length ?x = ?n" using le liv by (simp add: xorBytes_length)
    then have "int (length ?x) = BlockSize b" using B by simp
    with ok have lenc': "length ?c = length ?x" and dec: "DecryptBlock b ?c = ?x" by blast+
    from lenc' lenx have lenc: "length ?c = ?n" by simp
    have enc: "cbcEncryptBlocks b ivec src = ?c @ ?rest"
      using False B by (subst cbcEncryptBlocks.simps) (simp add: Let_def)
    have guard: "\<not> (src = [] \<or> BlockSize b \<le> 0)" using False B by simp
    have livc: "int (length ?c) = BlockSize b" using lenc B by simp
    have IH: "length ?rest = length (drop ?n src) \<and> cbcDecryptBlocks b ?c ?rest = drop ?n src"
      using "1.IH" [OF guard refl refl B ok livc dv] .
    have "length ivec = length (take ?n src)" using le liv by simp
    then have xx: "xorBytes ?x ivec = take ?n src" by (simp add: xorBytes_cancel)
    have "cbcDecryptBlocks b ivec (?c @ ?rest)
            = xorBytes (DecryptBlock b ?c) ivec @ cbcDecryptBlocks b ?c ?rest"
      using B lenc by (rule cbcDecryptBlocks_append)
    also have "\<dots> = take ?n src @ drop ?n src" using IH by (simp add: dec xx)
    finally have d: "cbcDecryptBlocks b ivec (?c @ ?rest) = src" by simp
    have "length (?c @ ?rest) = length src" using IH lenc le by simp
    with d show ?thesis by (simp add: enc)
  qed
qed

lemma cbcCryptBlocks_full:
  assumes "1 \<le> BlockSize b" and "BlockSize b dvd int (length src)"
  shows "cbcCryptBlocks blocks b ivec src = Inr (blocks b ivec src)"
  using assms by (simp add: cbcCryptBlocks_def goRem_eq_0_iff)

lemma NewBlockCrypt_default:
  assumes "NewBlockCrypt key ivec newCipher [] = Inr sf"
  shows "newCipher key = Inr (block sf)" and "iv sf = ivec"
    and "int (length (iv sf)) = BlockSize (block sf)"
    and "newEncrypt sf = NewCBCEncrypter" and "newDecrypt sf = NewCBCDecrypter"
  using assms by (auto simp: NewBlockCrypt_def split: sum.splits if_splits)

lemma Encrypt_returns:
  assumes "PCKSPadding plainText (BlockSize (block sf)) = Inr orig"
    and "newEncrypt sf (block sf) (iv sf) = Inr mode"
    and "CryptBlocks mode orig = Inr out"
  shows "Encrypt sf plainText
           = ([NewEncryptCall, CryptBlocksCall orig], Returns (inPlace orig out))"
  using assms by (simp add: Encrypt_def)

lemma Encrypt_default:
  assumes sf: "int (length (iv sf)) = BlockSize (block sf)" "newEncrypt sf = NewCBCEncrypter"
    and B: "1 \<le> BlockSize (block sf)"
    and pad: "PCKSPadding plainText (BlockSize (block sf)) = Inr orig"
  shows "\<exists>mode. newEncrypt sf (block sf) (iv sf) = Inr mode
           \<and> CryptBlocks mode orig = Inr (cbcEncryptBlocks (block sf) (iv sf) orig)"
proof -
  have "BlockSize (block sf) dvd int (length orig)"
    using PCKSPadding_length_eq(2) [OF B pad] by simp
  then show ?thesis
    using sf B by (simp add: NewCBCEncrypter_def cbcCryptBlocks_full)
qed



lemma exampleCrypt_built: "NewBlockCrypt [3] [1, 2] (shiftCipher 2) [] = Inr exampleCrypt"
  by (simp add: NewBlockCrypt_def shiftCipher_def shiftBlock_def exampleCrypt_def)

lemma exampleCrypt_BlockSize: "BlockSize (block exampleCrypt) = 2"
  by (simp add: exampleCrypt_def shiftBlock_def)

lemma exampleCrypt_ok:
  "\<forall>x. int (length x) = BlockSize (block exampleCrypt) \<longrightarrow>
       length (EncryptBlock (block exampleCrypt) x) = length x
       \<and> DecryptBlock (block exampleCrypt) (EncryptBlock (block exampleCrypt) x) = x"
  by (simp add: exampleCrypt_def shiftBlock_def comp_def)

lemma exampleCrypt_Encrypt:
  "Encrypt exampleCrypt [7, 8, 9]
     = ([NewEncryptCall, CryptBlocksCall [7, 8, 9, 1]], Returns [9, 13, 3, 15])"
  by (simp add: Encrypt_def PCKSPadding_def goRem_def NewCBCEncrypter_def cbcCryptBlocks_def
      cbcEncryptBlocks.simps inPlace_def xorBytes_def exampleCrypt_def shiftBlock_def Let_def)

section \<open>Round trip\<close>

text \<open>
  Claim C1. Let the wrapper be built by \<open>NewBlockCrypt\<close> with no option, so with the CBC
  factories, from a key the cipher constructor accepts and an IV of the block size \<open>B\<close>,
  \<open>1 \<le> B \<le> 255\<close>, over a cipher whose block decryption undoes its block encryption.
  Then for every plaintext \<open>P\<close>, the empty one too, \<open>Encrypt\<close> returns a ciphertext with a
  nil error and \<open>Decrypt\<close> of that ciphertext returns exactly \<open>P\<close> with a nil error.
\<close>

theorem Decrypt_Encrypt:
  assumes built: "NewBlockCrypt key ivec newCipher [] = Inr sf"
    and B: "1 \<le> BlockSize (block sf)" and B255: "BlockSize (block sf) \<le> 255"
    and ok: "\<forall>x. int (length x) = BlockSize (block sf) \<longrightarrow>
               length (EncryptBlock (block sf) x) = length x
               \<and> DecryptBlock (block sf) (EncryptBlock (block sf) x) = x"
  shows "\<exists>c. snd (Encrypt sf P) = Returns c \<and> snd (Decrypt sf c) = Returns P"
proof -
  let ?b = "block sf"
  let ?B = "BlockSize ?b"
  note sf = NewBlockCrypt_default [OF built]
  obtain orig where pad: "PCKSPadding P ?B = Inr orig"
    using PCKSPadding_pos [OF B] by blast
  have dv: "?B dvd int (length orig)" using PCKSPadding_length_eq(2) [OF B pad] by simp
  have pos: "orig \<noteq> []"
    using PCKSPadding_length_eq(1) [OF B pad] padSize_range(1) [OF B, of "length P"] by auto
  let ?c = "cbcEncryptBlocks ?b (iv sf) orig"
  note rt = cbc_roundtrip [OF B ok sf(3) dv]
  obtain mode where m: "newEncrypt sf ?b (iv sf) = Inr mode"
    and o: "CryptBlocks mode orig = Inr ?c"
    using Encrypt_default [OF sf(3,4) B pad] by blast
  have enc: "snd (Encrypt sf P) = Returns ?c"
    using Encrypt_returns [OF pad m o] rt by (simp add: inPlace_same_length)
  have ne: "length ?c \<noteq> 0" using rt pos by simp
  have dvc: "?B dvd int (length ?c)" using rt dv by simp
  have B0: "?B \<noteq> 0" using B by simp
  have dm: "newDecrypt sf ?b (iv sf)
              = Inr \<lparr>ModeBlockSize = ?B, CryptBlocks = cbcCryptBlocks cbcDecryptBlocks ?b (iv sf)\<rparr>"
    using sf(3,5) by (simp add: NewCBCDecrypter_def)
  have dc: "cbcCryptBlocks cbcDecryptBlocks ?b (iv sf) ?c = Inr orig"
    using cbcCryptBlocks_full [OF B dvc] rt by simp
  have ip: "inPlace ?c orig = orig" using rt by (simp add: inPlace_same_length)
  have up: "PCKSUnPadding orig = Inr P" by (rule unpad_pad_eq [OF B B255 pad])
  have "snd (Decrypt sf ?c) = Returns P"
    using ne B0 dvc by (simp add: Decrypt_def Let_def goRem_eq_0_iff dm dc ip up)
  with enc show ?thesis by blast
qed

theorem Decrypt_Encrypt_witness:
  "NewBlockCrypt [3] [1, 2] (shiftCipher 2) [] = Inr exampleCrypt
   \<and> 1 \<le> BlockSize (block exampleCrypt) \<and> BlockSize (block exampleCrypt) \<le> 255
   \<and> snd (Encrypt exampleCrypt [7, 8, 9]) = Returns [9, 13, 3, 15]
   \<and> snd (Decrypt exampleCrypt [9, 13, 3, 15]) = Returns [7, 8, 9]"
proof -
  have B: "1 \<le> BlockSize (block exampleCrypt)" and B255: "BlockSize (block exampleCrypt) \<le> 255"
    by (simp_all add: exampleCrypt_BlockSize)
  obtain c where e: "snd (Encrypt exampleCrypt [7, 8, 9]) = Returns c"
    and d: "snd (Decrypt exampleCrypt c) = Returns [7, 8, 9]"
    using Decrypt_Encrypt [OF exampleCrypt_built B B255 exampleCrypt_ok, of "[7, 8, 9]"] by blast
  from e have c: "c = [9, 13, 3, 15]" by (simp add: exampleCrypt_Encrypt)
  show ?thesis using exampleCrypt_built B B255 e d unfolding c by blast
qed

section \<open>Decrypt rejects a buffer that is not whole blocks\<close>

text \<open>
  Claim C5, as the code has it. For every ciphertext that is empty, or whose length is not
  a multiple of the block size of the wrapper's cipher when that block size is not zero,
  \<open>Decrypt\<close> returns \<open>ErrInputNotMultipleBlocks\<close> and has made no call: neither the
  factory of the decrypting mode nor its transform has run on the input.
\<close>

theorem Decrypt_not_multiple:
  assumes "cipherText = []
           \<or> (BlockSize (block sf) \<noteq> 0 \<and> \<not> BlockSize (block sf) dvd int (length cipherText))"
  shows "Decrypt sf cipherText = ([], Fails ErrInputNotMultipleBlocks)"
  using assms by (auto simp: Decrypt_def Let_def goRem_eq_0_iff)

theorem Decrypt_not_multiple_witness:
  "([9, 13, 3 :: byte] = []
      \<or> (BlockSize (block exampleCrypt) \<noteq> 0
           \<and> \<not> BlockSize (block exampleCrypt) dvd int (length [9, 13, 3 :: byte])))
   \<and> Decrypt exampleCrypt [9, 13, 3] = ([], Fails ErrInputNotMultipleBlocks)
   \<and> Decrypt exampleCrypt [] = ([], Fails ErrInputNotMultipleBlocks)"
proof -
  have h: "[9, 13, 3 :: byte] = []
             \<or> (BlockSize (block exampleCrypt) \<noteq> 0
                  \<and> \<not> BlockSize (block exampleCrypt) dvd int (length [9, 13, 3 :: byte]))"
    by (simp add: exampleCrypt_BlockSize)
  show ?thesis
    using h Decrypt_not_multiple [OF h] Decrypt_not_multiple [of "[]" exampleCrypt] by simp
qed

text \<open>
  A cipher that reports block size 0 passes construction with the empty IV. The length 2
  is no multiple of 0, and \<open>Decrypt\<close> of such a buffer panics on the remainder instead of
  returning the error.
\<close>

theorem Decrypt_not_multiple_counterexample:
  "NewBlockCrypt [3] [] (shiftCipher 0) [] = Inr zeroCrypt
   \<and> \<not> BlockSize (block zeroCrypt) dvd int (length [1, 2 :: byte])
   \<and> Decrypt zeroCrypt [1, 2] = ([], Panics IntegerDivideByZero)"
  by (simp add: NewBlockCrypt_def shiftCipher_def shiftBlock_def zeroCrypt_def Decrypt_def)

section \<open>Encrypt returns the padded buffer, transformed\<close>




section \<open>Construction errors\<close>

text \<open>
  Claim C8. For every key, IV, cipher constructor and list of options: when the cipher
  constructor fails, \<open>NewBlockCrypt\<close> returns that very error; when it succeeds and the IV
  length differs from the block size of the cipher it made, \<open>NewBlockCrypt\<close> returns
  \<open>ErrInvalidIvSize\<close>. In both cases the result is the error and no wrapper.
\<close>

theorem NewBlockCrypt_errors:
  "(newCipher key = Inl err \<longrightarrow> NewBlockCrypt key ivec newCipher opts = Inl err)
   \<and> (newCipher key = Inr blk \<and> int (length ivec) \<noteq> BlockSize blk
        \<longrightarrow> NewBlockCrypt key ivec newCipher opts = Inl ErrInvalidIvSize)"
  by (simp add: NewBlockCrypt_def)

theorem NewBlockCrypt_errors_witness:
  "shiftCipher 2 [] = Inl (ExternalError ''invalid key size'')
   \<and> NewBlockCrypt [] [1, 2] (shiftCipher 2) [] = Inl (ExternalError ''invalid key size'')
   \<and> shiftCipher 2 [3] = Inr (shiftBlock 3 2)
   \<and> int (length [1, 2, 3 :: byte]) \<noteq> BlockSize (shiftBlock 3 2)
   \<and> NewBlockCrypt [3] [1, 2, 3] (shiftCipher 2) [] = Inl ErrInvalidIvSize"
proof -
  have a: "shiftCipher 2 [] = Inl (ExternalError ''invalid key size'')"
    by (simp add: shiftCipher_def)
  have b: "shiftCipher 2 [3] = Inr (shiftBlock 3 2)" by (simp add: shiftCipher_def)
  have c: "int (length [1, 2, 3 :: byte]) \<noteq> BlockSize (shiftBlock 3 2)"
    by (simp add: shiftBlock_def)
  show ?thesis
    using a b c
      NewBlockCrypt_errors [of "shiftCipher 2" "[]" "ExternalError ''invalid key size''" "[1, 2]" "[]"]
      NewBlockCrypt_errors [of "shiftCipher 2" "[3]" _ "[1, 2, 3]" "[]" "shiftBlock 3 2"]
    by blast
qed

end
